theory Spec2Isabelle
  imports Complex_Main
begin

section \<open>Winning combinations (winning-combinations.ts)\<close>

subsection \<open>Configuration and data\<close>

text \<open>
  Symbol codes are the integer codes of the configuration; a position is an index into
  the payline. (A JavaScript number that is not an integer is in none of the three symbol
  lists, so it fails validation like any other unknown code.) \<open>InvalidSymbolError\<close> is the only exception the module throws, so the
  result of \<open>call\<close> is a sum: \<open>Inl\<close> for the thrown error, \<open>Inr\<close> for the returned list.
\<close>

datatype error = InvalidSymbolError

type_synonym WinningCombinationsResult = "(int \<times> nat list) list"

record WinningCombinationConfig =
  minSequenceLength :: nat
  wildSymbol :: int
  payingSymbols :: "int list"
  nonPayingSymbols :: "int list"

definition config :: WinningCombinationConfig where
  "config = \<lparr> minSequenceLength = 3, wildSymbol = 0,
              payingSymbols = [1, 2, 3, 4, 5, 6, 7, 8, 9],
              nonPayingSymbols = [10, 11, 12, 13, 14, 15] \<rparr>"

subsection \<open>The functions of the module\<close>

definition isElegibleSymbol :: "int \<Rightarrow> bool" where
  "isElegibleSymbol symbol =
     (let isPayingSymbols = symbol \<in> set (payingSymbols config);
          isWildSymbol = (symbol = wildSymbol config)
      in \<not> isWildSymbol \<and> isPayingSymbols)"

definition buildAllWildWinningCombinationsResult :: "nat \<Rightarrow> WinningCombinationsResult" where
  "buildAllWildWinningCombinationsResult columnsCount =
     [(wildSymbol config, [0..<columnsCount])]"

definition replaceWildToSymbolInLine :: "int list \<Rightarrow> int \<Rightarrow> int list" where
  "replaceWildToSymbolInLine lineSymbols symbol =
     map (\<lambda>symbolToReplace.
            if symbolToReplace \<noteq> wildSymbol config then symbolToReplace else symbol)
         lineSymbols"

text \<open>
  \<open>line[index - 1]\<close> reads outside the array when \<open>index = 0\<close>; JavaScript then gives
  \<open>undefined\<close>, which is different from every symbol. \<open>elementBefore\<close> is that read, with
  \<open>None\<close> for \<open>undefined\<close>.
\<close>

definition elementBefore :: "int list \<Rightarrow> nat \<Rightarrow> int option" where
  "elementBefore line index =
     (if index = 0 \<or> length line < index then None else Some (line ! (index - 1)))"

text \<open>The callback of the \<open>reduce\<close> in \<open>buildSymbolSequences\<close>.\<close>

definition sequencesStep ::
  "int list \<Rightarrow> int \<Rightarrow> nat list list \<Rightarrow> int \<times> nat \<Rightarrow> nat list list" where
  "sequencesStep line symbol acc ci =
     (case ci of (currentSymbol, index) \<Rightarrow>
        if currentSymbol = symbol then
          (if length acc = 0 \<or> elementBefore line index \<noteq> Some symbol
           then acc @ [[index]]
           else butlast acc @ [last acc @ [index]])
        else acc)"

definition buildSymbolSequences :: "int list \<Rightarrow> int \<Rightarrow> nat list list" where
  "buildSymbolSequences line symbol =
     foldl (sequencesStep line symbol) [] (zip line [0..<length line])"

definition findPaylinePositions :: "nat list list \<Rightarrow> nat list option" where
  "findPaylinePositions sequences =
     find (\<lambda>sequence. minSequenceLength config \<le> length sequence) sequences"

definition allSymbols :: "int list" where
  "allSymbols = wildSymbol config # payingSymbols config @ nonPayingSymbols config"

definition validateSymbols :: "int list \<Rightarrow> error + bool" where
  "validateSymbols symbols =
     (if \<not> list_all (\<lambda>symbol. symbol \<in> set allSymbols) symbols
      then Inl InvalidSymbolError
      else Inr True)"

text \<open>
  \<open>[...new Set(line)]\<close>: a JavaScript \<open>Set\<close> keeps its elements in insertion order and
  ignores the insertion of an element it already holds.
\<close>

definition setAdd :: "int list \<Rightarrow> int \<Rightarrow> int list" where
  "setAdd elems x = (if x \<in> set elems then elems else elems @ [x])"

definition newSet :: "int list \<Rightarrow> int list" where
  "newSet line = foldl setAdd [] line"

text \<open>The body of the \<open>forEach\<close> over the distinct symbols in \<open>call\<close>.\<close>

definition callStep ::
  "int list \<Rightarrow> WinningCombinationsResult \<Rightarrow> int \<Rightarrow> WinningCombinationsResult" where
  "callStep line winningCombinationsResult symbol =
     (if \<not> isElegibleSymbol symbol then winningCombinationsResult
      else
        let lineWithReplacedWilds = replaceWildToSymbolInLine line symbol;
            symbolSequences = buildSymbolSequences lineWithReplacedWilds symbol
        in case findPaylinePositions symbolSequences of
             Some paylinePositions \<Rightarrow> winningCombinationsResult @ [(symbol, paylinePositions)]
           | None \<Rightarrow> winningCombinationsResult)"

definition call :: "int list \<Rightarrow> error + WinningCombinationsResult" where
  "call line =
     (let uniqueSymbols = newSet line in
      case validateSymbols uniqueSymbols of
        Inl e \<Rightarrow> Inl e
      | Inr _ \<Rightarrow>
          let isOnlyWildSymbol =
                (length uniqueSymbols = 1 \<and> uniqueSymbols ! 0 = wildSymbol config)
          in if isOnlyWildSymbol
             then Inr (buildAllWildWinningCombinationsResult (length line))
             else Inr (foldl (callStep line) [] uniqueSymbols))"

section \<open>Slot machine cadence (SlotMachineCadence.ts)\<close>

text \<open>
  Cadence values are JavaScript numbers. Every value the module computes is a sum of at
  most four increments, each \<open>2\<close> or \<open>0.25\<close>, so it is a multiple of \<open>0.25\<close> below
  \<open>8\<close> and exact in binary floating point; the model computes the same numbers as
  rationals. Counts of symbols are natural numbers, column and row indices integers.
  \<open>number | null\<close> is an option type, with \<open>None\<close> for \<open>null\<close> (and for \<open>undefined\<close>,
  which the module never tells apart from \<open>null\<close>).
\<close>

type_synonym SlotCadence = "rat list"

record AnticipatorConfig =
  columnSize :: nat
  minToAnticipate :: nat
  maxToAnticipate :: nat
  anticipateCadence :: rat
  defaultCadence :: rat

record SlotCoordinate =
  column :: int
  row :: int

record SpecialSymbol =
  specialSymbols :: "SlotCoordinate list"

record 'a Rounds =
  roundOne :: 'a
  roundTwo :: 'a
  roundThree :: 'a

type_synonym RoundsSymbols = "SpecialSymbol Rounds"

type_synonym RoundsCadences = "SlotCadence Rounds"

definition anticipatorConfig :: AnticipatorConfig where
  "anticipatorConfig = \<lparr> columnSize = 5, minToAnticipate = 2, maxToAnticipate = 3,
                         anticipateCadence = 2, defaultCadence = 1 / 4 \<rparr>"

definition gameRounds :: RoundsSymbols where
  "gameRounds =
     \<lparr> roundOne = \<lparr> specialSymbols = [\<lparr>column = 0, row = 2\<rparr>, \<lparr>column = 1, row = 3\<rparr>,
                                      \<lparr>column = 3, row = 4\<rparr>] \<rparr>,
       roundTwo = \<lparr> specialSymbols = [\<lparr>column = 0, row = 2\<rparr>, \<lparr>column = 0, row = 3\<rparr>] \<rparr>,
       roundThree = \<lparr> specialSymbols = [\<lparr>column = 4, row = 2\<rparr>, \<lparr>column = 4, row = 3\<rparr>] \<rparr> \<rparr>"

text \<open>
  \<open>forEachColumnIndex\<close> calls the callback for the indices \<open>0, ..., columnSize - 1\<close> in
  order. The callbacks of the module update local variables of the enclosing function;
  the model passes those variables through as the state \<open>st\<close>.
\<close>

definition forEachColumnIndex :: "(nat \<Rightarrow> 's \<Rightarrow> 's) \<Rightarrow> 's \<Rightarrow> 's" where
  "forEachColumnIndex callback st =
     foldl (\<lambda>st index. callback index st) st [0..<columnSize anticipatorConfig]"

text \<open>
  The callback of \<open>calculateCumulativeSymbolCountsPerColumn\<close>; its state is
  \<open>(totalCount, symbolsAccumulatorPerColumn)\<close>.
\<close>

definition countColumn :: "SlotCoordinate list \<Rightarrow> nat \<Rightarrow> nat \<times> nat list \<Rightarrow> nat \<times> nat list" where
  "countColumn symbols index st =
     (case st of (totalCount, symbolsAccumulatorPerColumn) \<Rightarrow>
        let symbolsColumnCount = length (filter (\<lambda>symbol. column symbol = int index) symbols);
            totalCount = totalCount + symbolsColumnCount
        in (totalCount, symbolsAccumulatorPerColumn @ [totalCount]))"

definition calculateCumulativeSymbolCountsPerColumn :: "SlotCoordinate list \<Rightarrow> nat list" where
  "calculateCumulativeSymbolCountsPerColumn symbols =
     snd (forEachColumnIndex (countColumn symbols) (0, []))"

definition calculateCadence :: "rat option \<Rightarrow> nat option \<Rightarrow> rat" where
  "calculateCadence previousCadence previousSymbolsCount =
     (case previousCadence of
        None \<Rightarrow> 0
      | Some previousCadence \<Rightarrow>
          let isAnticipating =
                (case previousSymbolsCount of
                   None \<Rightarrow> False
                 | Some c \<Rightarrow> c \<noteq> 0 \<and> minToAnticipate anticipatorConfig \<le> c
                              \<and> c < maxToAnticipate anticipatorConfig)
          in if isAnticipating
             then previousCadence + anticipateCadence anticipatorConfig
             else previousCadence + defaultCadence anticipatorConfig)"

text \<open>
  \<open>symbolsAccumulatorPerColumn[index - 1]\<close> reads index \<open>-1\<close> in the first iteration,
  which gives \<open>undefined\<close>; \<open>x || null\<close> turns every falsy \<open>x\<close> (\<open>undefined\<close> and the
  count \<open>0\<close>) into \<open>null\<close>.
\<close>

definition arrayAt :: "nat list \<Rightarrow> int \<Rightarrow> nat option" where
  "arrayAt xs i = (if 0 \<le> i \<and> i < int (length xs) then Some (xs ! nat i) else None)"

definition orNull :: "nat option \<Rightarrow> nat option" where
  "orNull v = (case v of None \<Rightarrow> None | Some c \<Rightarrow> if c = 0 then None else Some c)"

text \<open>
  The callback of \<open>calculateSlotCadence\<close>; its state is \<open>(previousCadence, slotCadence)\<close>.
\<close>

definition cadenceColumn ::
  "nat list \<Rightarrow> nat \<Rightarrow> rat option \<times> rat list \<Rightarrow> rat option \<times> rat list" where
  "cadenceColumn symbolsAccumulatorPerColumn index st =
     (case st of (previousCadence, slotCadence) \<Rightarrow>
        let previousSymbolsCount = orNull (arrayAt symbolsAccumulatorPerColumn (int index - 1));
            currentCadence = calculateCadence previousCadence previousSymbolsCount
        in (Some currentCadence, slotCadence @ [currentCadence]))"

definition calculateSlotCadence :: "SlotCoordinate list \<Rightarrow> SlotCadence" where
  "calculateSlotCadence symbols =
     (let symbolsAccumulatorPerColumn = calculateCumulativeSymbolCountsPerColumn symbols
      in snd (forEachColumnIndex (cadenceColumn symbolsAccumulatorPerColumn) (None, [])))"

text \<open>
  \<open>handleCadences\<close> writes into the module-level object \<open>slotMachineCadences\<close> and returns
  it, so objects and arrays live in an explicit store: \<open>objects\<close> maps the address of a
  \<open>RoundsCadences\<close> object to its three fields, each the address of an array, and \<open>arrays\<close>
  maps the address of an array to its contents. \<open>nextRef\<close> is the next unused array
  address: \<open>newArray\<close> returns it and advances it, as the array literal and the \<open>push\<close>
  calls of \<open>calculateSlotCadence\<close> build a new array on every call.
\<close>

record store =
  objects :: "nat \<Rightarrow> nat Rounds"
  arrays :: "nat \<Rightarrow> rat list"
  nextRef :: nat

text \<open>
  The constant \<open>slotMachineCadences\<close> of the module is bound once, to the object created
  when the module is loaded; \<open>initialStore\<close> is the store right after that, with the three
  empty arrays of the object literal.
\<close>

definition slotMachineCadences :: nat where
  "slotMachineCadences = 0"

definition initialStore :: store where
  "initialStore = \<lparr> objects = (\<lambda>_. \<lparr> roundOne = 0, roundTwo = 1, roundThree = 2 \<rparr>),
                    arrays = (\<lambda>_. []), nextRef = 3 \<rparr>"

definition newArray :: "rat list \<Rightarrow> store \<Rightarrow> nat \<times> store" where
  "newArray v st =
     (nextRef st, st\<lparr> arrays := (arrays st)(nextRef st := v), nextRef := Suc (nextRef st) \<rparr>)"

definition setRoundOne :: "nat \<Rightarrow> nat \<Rightarrow> store \<Rightarrow> store" where
  "setRoundOne obj a st = st\<lparr> objects := (objects st)(obj := (objects st obj)\<lparr> roundOne := a \<rparr>) \<rparr>"

definition setRoundTwo :: "nat \<Rightarrow> nat \<Rightarrow> store \<Rightarrow> store" where
  "setRoundTwo obj a st = st\<lparr> objects := (objects st)(obj := (objects st obj)\<lparr> roundTwo := a \<rparr>) \<rparr>"

definition setRoundThree :: "nat \<Rightarrow> nat \<Rightarrow> store \<Rightarrow> store" where
  "setRoundThree obj a st =
     st\<lparr> objects := (objects st)(obj := (objects st obj)\<lparr> roundThree := a \<rparr>) \<rparr>"

definition handleCadences :: "RoundsSymbols \<Rightarrow> store \<Rightarrow> nat \<times> store" where
  "handleCadences rounds st =
     (let (a1, st) = newArray (calculateSlotCadence (specialSymbols (roundOne rounds))) st;
          st = setRoundOne slotMachineCadences a1 st;
          (a2, st) = newArray (calculateSlotCadence (specialSymbols (roundTwo rounds))) st;
          st = setRoundTwo slotMachineCadences a2 st;
          (a3, st) = newArray (calculateSlotCadence (specialSymbols (roundThree rounds))) st;
          st = setRoundThree slotMachineCadences a3 st
      in (slotMachineCadences, st))"

text \<open>
  What a caller sees when it reads the three arrays through a reference to a
  \<open>RoundsCadences\<close> object.
\<close>

definition readCadences :: "store \<Rightarrow> nat \<Rightarrow> RoundsCadences" where
  "readCadences st obj =
     \<lparr> roundOne = arrays st (roundOne (objects st obj)),
       roundTwo = arrays st (roundTwo (objects st obj)),
       roundThree = arrays st (roundThree (objects st obj)) \<rparr>"

section \<open>Notions the properties are stated with\<close>

text \<open>
  The definitions of this section do not come from the source. They say, independently of
  how the code computes, what a maximal run is, which run is the leftmost qualifying one,
  where a symbol first appears, and how many special symbols lie in the first columns;
  they also name the auxiliary invariants and the example inputs of the proofs.
\<close>

text \<open>
  The position at which a symbol first appears in a payline (the length of the payline
  when it does not appear).
\<close>

definition firstIndex :: "int list \<Rightarrow> int \<Rightarrow> nat" where
  "firstIndex line symbol = length (takeWhile (\<lambda>x. x \<noteq> symbol) line)"

text \<open>
  The three steps \<open>call\<close> takes for one eligible symbol: substitute the wilds, build the
  sequences, take the first long enough.
\<close>

definition getPaylinePositionsBySymbol :: "int list \<Rightarrow> int \<Rightarrow> nat list option" where
  "getPaylinePositionsBySymbol line symbol =
     findPaylinePositions
       (buildSymbolSequences (replaceWildToSymbolInLine line symbol) symbol)"

text \<open>
  The wild-substituted line of a payline for a symbol, in the words of the specification:
  the line of the same length that holds the symbol at every position where the payline
  holds the wild symbol, and the payline's own symbol at every other position.
\<close>

definition wildSubstitutedLine :: "int list \<Rightarrow> int \<Rightarrow> int list" where
  "wildSubstitutedLine line symbol =
     map (\<lambda>k. if line ! k = wildSymbol config then symbol else line ! k) [0..<length line]"

text \<open>
  Positions \<open>i, ..., j - 1\<close> form a maximal run of \<open>symbol\<close> in \<open>line\<close>: they all hold the
  symbol, and the run can be extended neither to the left nor to the right.
\<close>

definition maximalRun :: "int list \<Rightarrow> int \<Rightarrow> nat \<Rightarrow> nat \<Rightarrow> bool" where
  "maximalRun line symbol i j =
     (i < j \<and> j \<le> length line \<and> (\<forall>k\<in>{i..<j}. line ! k = symbol) \<and>
      (0 < i \<longrightarrow> line ! (i - 1) \<noteq> symbol) \<and>
      (j < length line \<longrightarrow> line ! j \<noteq> symbol))"

text \<open>
  The same for the prefix of length \<open>n\<close>: the invariant of the scan after \<open>n\<close> elements.
\<close>

definition runUpto :: "int list \<Rightarrow> int \<Rightarrow> nat \<Rightarrow> nat \<Rightarrow> nat \<Rightarrow> bool" where
  "runUpto line symbol n i j =
     (i < j \<and> j \<le> n \<and> (\<forall>k\<in>{i..<j}. line ! k = symbol) \<and>
      (0 < i \<longrightarrow> line ! (i - 1) \<noteq> symbol) \<and>
      (j < n \<longrightarrow> line ! j \<noteq> symbol))"

text \<open>
  After \<open>n\<close> elements the accumulator of \<open>buildSymbolSequences\<close> holds exactly the maximal
  runs of the prefix, from left to right, and its last sequence is the one still open.
\<close>

definition seqInv :: "int list \<Rightarrow> int \<Rightarrow> nat \<Rightarrow> nat list list \<Rightarrow> bool" where
  "seqInv l s n acc =
     ((\<forall>ps\<in>set acc. \<exists>i j. ps = [i..<j] \<and> runUpto l s n i j) \<and>
      (\<forall>i j. runUpto l s n i j \<longrightarrow> [i..<j] \<in> set acc) \<and>
      sorted_wrt (\<lambda>p q. hd p < hd q) acc \<and>
      (0 < n \<and> l ! (n - 1) = s \<longrightarrow> acc \<noteq> [] \<and> (\<exists>i. last acc = [i..<n])))"

text \<open>
  A qualifying run is a maximal run of at least \<open>minSequenceLength\<close> positions; the
  leftmost one is the one no other qualifying run starts before.
\<close>

definition qualifyingRun :: "int list \<Rightarrow> int \<Rightarrow> nat \<Rightarrow> nat \<Rightarrow> bool" where
  "qualifyingRun line symbol i j =
     (maximalRun line symbol i j \<and> minSequenceLength config \<le> j - i)"

definition hasQualifyingRun :: "int list \<Rightarrow> int \<Rightarrow> bool" where
  "hasQualifyingRun line symbol =
     (\<exists>i\<in>{..<length line}. \<exists>j\<in>{..length line}. qualifyingRun line symbol i j)"

definition leftmostQualifyingRun :: "int list \<Rightarrow> int \<Rightarrow> nat list \<Rightarrow> bool" where
  "leftmostQualifyingRun line symbol ps =
     (\<exists>i\<in>{..<length line}. \<exists>j\<in>{..length line}.
        ps = [i..<j] \<and> qualifyingRun line symbol i j \<and>
        (\<forall>i'\<in>{..<i}. \<forall>j'\<in>{..length line}. \<not> qualifyingRun line symbol i' j'))"

text \<open>
  The number of special symbols in the columns \<open>0, ..., k\<close>.
\<close>

definition cumulativeCount :: "SlotCoordinate list \<Rightarrow> nat \<Rightarrow> nat" where
  "cumulativeCount symbols k =
     length (filter (\<lambda>symbol. 0 \<le> column symbol \<and> column symbol \<le> int k) symbols)"

text \<open>
  The cadence of a column written as a recurrence, for the proofs.
\<close>

definition cadenceIncrement :: "SlotCoordinate list \<Rightarrow> nat \<Rightarrow> rat" where
  "cadenceIncrement symbols k =
     (if minToAnticipate anticipatorConfig \<le> cumulativeCount symbols k
         \<and> cumulativeCount symbols k < maxToAnticipate anticipatorConfig
      then anticipateCadence anticipatorConfig else defaultCadence anticipatorConfig)"

fun cadenceAt :: "SlotCoordinate list \<Rightarrow> nat \<Rightarrow> rat" where
  "cadenceAt symbols 0 = 0"
| "cadenceAt symbols (Suc i) = cadenceAt symbols i + cadenceIncrement symbols i"

text \<open>
  Example inputs: coordinates outside the reels, a round with two symbols in column 0 and
  one in column 1, and two successive calls of \<open>handleCadences\<close>.
\<close>

definition strayColumns :: "SlotCoordinate list" where
  "strayColumns = [\<lparr>column = 7, row = 0\<rparr>, \<lparr>column = - 1, row = 1\<rparr>, \<lparr>column = 1, row = 0\<rparr>]"

definition exampleSymbols :: "SlotCoordinate list" where
  "exampleSymbols = [\<lparr>column = 0, row = 0\<rparr>, \<lparr>column = 0, row = 1\<rparr>, \<lparr>column = 1, row = 0\<rparr>]"

definition noSpecialSymbols :: RoundsSymbols where
  "noSpecialSymbols =
     \<lparr> roundOne = \<lparr> specialSymbols = [] \<rparr>, roundTwo = \<lparr> specialSymbols = [] \<rparr>,
       roundThree = \<lparr> specialSymbols = [] \<rparr> \<rparr>"

definition firstCall :: "nat \<times> store" where
  "firstCall = handleCadences gameRounds initialStore"

definition secondCall :: "nat \<times> store" where
  "secondCall = handleCadences noSpecialSymbols (snd firstCall)"

section \<open>Distinct symbols and the loop over them\<close>

lemma set_foldl_setAdd: "set (foldl setAdd acc xs) = set acc \<union> set xs"
  by (induction xs arbitrary: acc) (auto simp: setAdd_def)

lemma distinct_foldl_setAdd: "distinct acc \<Longrightarrow> distinct (foldl setAdd acc xs)"
  by (induction xs arbitrary: acc) (auto simp: setAdd_def)

lemma set_newSet: "set (newSet line) = set line"
  by (simp add: newSet_def set_foldl_setAdd)

lemma distinct_newSet: "distinct (newSet line)"
  by (simp add: newSet_def distinct_foldl_setAdd)

lemma newSet_snoc: "newSet (xs @ [x]) = setAdd (newSet xs) x"
  by (simp add: newSet_def)

lemma firstIndex_less: "a \<in> set xs \<Longrightarrow> firstIndex xs a < length xs"
  unfolding firstIndex_def by (induction xs) auto

lemma firstIndex_snoc_old: "a \<in> set xs \<Longrightarrow> firstIndex (xs @ [x]) a = firstIndex xs a"
  unfolding firstIndex_def by (simp add: takeWhile_append1)

lemma firstIndex_snoc_new: "x \<notin> set xs \<Longrightarrow> firstIndex (xs @ [x]) x = length xs"
  unfolding firstIndex_def by (induction xs) auto

lemma sorted_newSet:
  "sorted_wrt (\<lambda>a b. firstIndex line a < firstIndex line b) (newSet line)"
proof (induction line rule: rev_induct)
  case Nil
  show ?case by (simp add: newSet_def)
next
  case (snoc x xs)
  have old: "sorted_wrt (\<lambda>a b. firstIndex (xs @ [x]) a < firstIndex (xs @ [x]) b) (newSet xs)"
    using snoc
    by (rule sorted_wrt_mono_rel[rotated]) (simp add: set_newSet firstIndex_snoc_old)
  show ?case
  proof (cases "x \<in> set xs")
    case True
    then show ?thesis using old by (simp add: newSet_snoc setAdd_def set_newSet)
  next
    case False
    then show ?thesis using old
      by (simp add: newSet_snoc setAdd_def set_newSet sorted_wrt_append
          firstIndex_snoc_old firstIndex_snoc_new firstIndex_less)
  qed
qed

lemma singleton_list:
  assumes d: "distinct xs" and s: "set xs = {a}"
  shows "xs = [a]"
proof (cases xs)
  case Nil
  then show ?thesis using s by simp
next
  case (Cons y ys)
  from s Cons have y: "y = a" by auto
  from s Cons d y have "set ys \<subseteq> {a}" "a \<notin> set ys" by auto
  then have "ys = []" by (cases ys) auto
  with y Cons show ?thesis by simp
qed

lemma newSet_only_wild:
  "(length (newSet line) = 1 \<and> newSet line ! 0 = w) = (set line = {w})"
proof
  assume "length (newSet line) = 1 \<and> newSet line ! 0 = w"
  then have "newSet line = [w]" by (cases "newSet line") auto
  then show "set line = {w}" using set_newSet[of line] by simp
next
  assume "set line = {w}"
  then have "newSet line = [w]"
    using singleton_list[OF distinct_newSet, of line w] by (simp add: set_newSet)
  then show "length (newSet line) = 1 \<and> newSet line ! 0 = w" by simp
qed

lemma validateSymbols_iff:
  "(validateSymbols (newSet line) = Inr True) = (\<forall>x\<in>set line. x \<in> set allSymbols)"
  "(validateSymbols (newSet line) = Inl InvalidSymbolError) = (\<exists>x\<in>set line. x \<notin> set allSymbols)"
  by (auto simp: validateSymbols_def list_all_iff set_newSet)

lemma callStep_alt:
  "callStep line res symbol =
     (if isElegibleSymbol symbol
      then (case getPaylinePositionsBySymbol line symbol of
              Some ps \<Rightarrow> res @ [(symbol, ps)] | None \<Rightarrow> res)
      else res)"
  by (simp add: callStep_def getPaylinePositionsBySymbol_def)

lemma fst_foldl_callStep:
  "map fst (foldl (callStep line) acc us) =
     map fst acc @
     filter (\<lambda>s. isElegibleSymbol s \<and> getPaylinePositionsBySymbol line s \<noteq> None) us"
  by (induction us arbitrary: acc) (auto simp: callStep_alt split: option.splits)

lemma set_foldl_callStep:
  "set (foldl (callStep line) acc us) =
     set acc \<union> {(s, ps). s \<in> set us \<and> isElegibleSymbol s \<and>
                          getPaylinePositionsBySymbol line s = Some ps}"
  by (induction us arbitrary: acc) (auto simp: callStep_alt split: option.splits)

lemma call_invalid:
  "\<exists>x\<in>set line. x \<notin> set allSymbols \<Longrightarrow> call line = Inl InvalidSymbolError"
  using validateSymbols_iff(2)[of line] by (simp add: call_def)

lemma call_valid:
  "\<forall>x\<in>set line. x \<in> set allSymbols \<Longrightarrow>
   call line =
     (if set line = {wildSymbol config}
      then Inr (buildAllWildWinningCombinationsResult (length line))
      else Inr (foldl (callStep line) [] (newSet line)))"
  using validateSymbols_iff(1)[of line] newSet_only_wild[of line "wildSymbol config"]
  by (simp add: call_def Let_def)

section \<open>The scan builds the maximal runs\<close>

lemma maximalRun_runUpto: "maximalRun line symbol i j = runUpto line symbol (length line) i j"
  by (simp add: maximalRun_def runUpto_def)

lemma runUpto_skip:
  assumes "l ! n \<noteq> s"
  shows "runUpto l s (Suc n) i j = runUpto l s n i j"
proof
  assume r: "runUpto l s (Suc n) i j"
  have "j \<noteq> Suc n"
  proof
    assume "j = Suc n"
    with r have "n \<in> {i..<j}" by (auto simp: runUpto_def)
    with r have "l ! n = s" unfolding runUpto_def by blast
    with assms show False by simp
  qed
  with r show "runUpto l s n i j" by (auto simp: runUpto_def)
next
  assume r: "runUpto l s n i j"
  with assms show "runUpto l s (Suc n) i j"
    by (auto simp: runUpto_def less_Suc_eq)
qed

lemma runUpto_end_last:
  assumes "runUpto l s n i n"
  shows "0 < n \<and> l ! (n - 1) = s \<and> i < n"
proof -
  from assms have "i < n" by (simp add: runUpto_def)
  then have "n - 1 \<in> {i..<n}" by auto
  with assms have "l ! (n - 1) = s" unfolding runUpto_def by blast
  with \<open>i < n\<close> show ?thesis by simp
qed

lemma runUpto_end_unique:
  assumes a: "runUpto l s n i j" and b: "runUpto l s n i' j"
  shows "i = i'"
proof (rule ccontr)
  assume ne: "i \<noteq> i'"
  have aux: "False" if x: "runUpto l s n a j" and y: "runUpto l s n b j" and lt: "a < b" for a b
  proof -
    from y have "b < j" by (simp add: runUpto_def)
    with lt have "b - 1 \<in> {a..<j}" by auto
    with x have "l ! (b - 1) = s" unfolding runUpto_def by blast
    moreover from y lt have "l ! (b - 1) \<noteq> s" by (simp add: runUpto_def)
    ultimately show False by simp
  qed
  from ne have "i < i' \<or> i' < i" by arith
  then show False using aux[OF a b] aux[OF b a] by blast
qed

lemma runUpto_new:
  assumes "l ! n = s" and "n = 0 \<or> l ! (n - 1) \<noteq> s"
  shows "runUpto l s (Suc n) i j = (runUpto l s n i j \<or> (i = n \<and> j = Suc n))"
proof
  assume r: "runUpto l s (Suc n) i j"
  show "runUpto l s n i j \<or> (i = n \<and> j = Suc n)"
  proof (cases "j = Suc n")
    case True
    have "i = n"
    proof (rule ccontr)
      assume "i \<noteq> n"
      with r True have "i < n" by (simp add: runUpto_def)
      then have "n - 1 \<in> {i..<j}" using True by auto
      with r have "l ! (n - 1) = s" unfolding runUpto_def by blast
      with assms \<open>i < n\<close> show False by auto
    qed
    with True show ?thesis by simp
  next
    case False
    with r assms have "j < n" by (auto simp: runUpto_def le_Suc_eq less_Suc_eq)
    with r show ?thesis by (auto simp: runUpto_def)
  qed
next
  assume "runUpto l s n i j \<or> (i = n \<and> j = Suc n)"
  then show "runUpto l s (Suc n) i j"
  proof
    assume r: "runUpto l s n i j"
    have "j \<noteq> n"
    proof
      assume "j = n"
      with r runUpto_end_last[of l s n i] assms show False by auto
    qed
    with r show ?thesis by (auto simp: runUpto_def)
  next
    assume "i = n \<and> j = Suc n"
    with assms show ?thesis by (auto simp: runUpto_def)
  qed
qed

lemma runUpto_extend:
  assumes "l ! n = s" and "0 < n" and "l ! (n - 1) = s"
  shows "runUpto l s (Suc n) i j =
           ((runUpto l s n i j \<and> j < n) \<or> (j = Suc n \<and> runUpto l s n i n))"
proof
  assume r: "runUpto l s (Suc n) i j"
  show "(runUpto l s n i j \<and> j < n) \<or> (j = Suc n \<and> runUpto l s n i n)"
  proof (cases "j = Suc n")
    case True
    have "i \<noteq> n"
    proof
      assume "i = n"
      with r assms show False by (simp add: runUpto_def)
    qed
    with r True have "i < n" by (simp add: runUpto_def)
    with r True have "runUpto l s n i n" by (auto simp: runUpto_def)
    with True show ?thesis by simp
  next
    case False
    with r assms have "j < n" by (auto simp: runUpto_def le_Suc_eq less_Suc_eq)
    with r show ?thesis by (auto simp: runUpto_def)
  qed
next
  assume "(runUpto l s n i j \<and> j < n) \<or> (j = Suc n \<and> runUpto l s n i n)"
  then show "runUpto l s (Suc n) i j"
  proof
    assume "runUpto l s n i j \<and> j < n"
    then show ?thesis by (auto simp: runUpto_def)
  next
    assume "j = Suc n \<and> runUpto l s n i n"
    with assms show ?thesis by (auto simp: runUpto_def less_Suc_eq)
  qed
qed

lemma upt_eq_upt: "i < j \<Longrightarrow> [i..<j] = [i'..<j'] \<Longrightarrow> i = i' \<and> j = j'"
proof -
  assume a: "i < j" and e: "[i..<j] = [i'..<j']"
  from a e have "i' < j'" by (cases "i' < j'") auto
  from e have "hd [i..<j] = hd [i'..<j']" by simp
  with a \<open>i' < j'\<close> have "i = i'" by simp
  from e have "length [i..<j] = length [i'..<j']" by simp
  with a \<open>i' < j'\<close> \<open>i = i'\<close> show ?thesis by simp
qed

lemma seqInv_skip:
  assumes inv: "seqInv l s n acc" and x: "l ! n \<noteq> s"
  shows "seqInv l s (Suc n) acc"
  using inv x unfolding seqInv_def by (simp add: runUpto_skip)

lemma seqInv_new:
  assumes inv: "seqInv l s n acc" and x: "l ! n = s"
    and c: "acc = [] \<or> n = 0 \<or> l ! (n - 1) \<noteq> s"
  shows "seqInv l s (Suc n) (acc @ [[n]])"
proof -
  from inv c have c': "n = 0 \<or> l ! (n - 1) \<noteq> s" unfolding seqInv_def by auto
  note R = runUpto_new[OF x c']
  have 1: "\<forall>ps\<in>set (acc @ [[n]]). \<exists>i j. ps = [i..<j] \<and> runUpto l s (Suc n) i j"
  proof
    fix ps assume "ps \<in> set (acc @ [[n]])"
    then consider "ps \<in> set acc" | "ps = [n]" by auto
    then show "\<exists>i j. ps = [i..<j] \<and> runUpto l s (Suc n) i j"
    proof cases
      case 1
      with inv obtain i j where "ps = [i..<j]" "runUpto l s n i j"
        unfolding seqInv_def by blast
      then show ?thesis using R by blast
    next
      case 2
      then have "ps = [n..<Suc n]" by simp
      moreover have "runUpto l s (Suc n) n (Suc n)" using R by simp
      ultimately show ?thesis by blast
    qed
  qed
  have 2: "\<forall>i j. runUpto l s (Suc n) i j \<longrightarrow> [i..<j] \<in> set (acc @ [[n]])"
    using inv unfolding seqInv_def by (auto simp: R)
  have hd_less: "\<forall>p\<in>set acc. hd p < n"
  proof
    fix p assume "p \<in> set acc"
    with inv obtain i j where "p = [i..<j]" "runUpto l s n i j"
      unfolding seqInv_def by blast
    then show "hd p < n" by (auto simp: runUpto_def)
  qed
  have 3: "sorted_wrt (\<lambda>p q. hd p < hd q) (acc @ [[n]])"
    using inv hd_less unfolding seqInv_def by (simp add: sorted_wrt_append)
  have 4: "last (acc @ [[n]]) = [n..<Suc n]" by simp
  show ?thesis unfolding seqInv_def using 1 2 3 4 by blast
qed

lemma seqInv_extend:
  assumes inv: "seqInv l s n acc" and x: "l ! n = s"
    and c: "acc \<noteq> []" "0 < n" "l ! (n - 1) = s"
  shows "seqInv l s (Suc n) (butlast acc @ [last acc @ [n]])"
proof -
  note R = runUpto_extend[OF x c(2) c(3)]
  from inv c obtain i0 where last: "last acc = [i0..<n]" unfolding seqInv_def by blast
  from c(1) have lastin: "last acc \<in> set acc" by simp
  with inv last have r0: "runUpto l s n i0 n"
  proof -
    from inv lastin obtain i j where e: "last acc = [i..<j]" and r: "runUpto l s n i j"
      unfolding seqInv_def by blast
    from r have "i < j" by (simp add: runUpto_def)
    from e last have "[i..<j] = [i0..<n]" by simp
    from upt_eq_upt[OF \<open>i < j\<close> this] have "i = i0" "j = n" by simp_all
    with r show ?thesis by simp
  qed
  then have i0: "i0 < n" by (simp add: runUpto_def)
  have newlast: "last acc @ [n] = [i0..<Suc n]" using last i0 by simp
  have acc: "acc = butlast acc @ [last acc]" using c(1) by simp
  have srt: "sorted_wrt (\<lambda>p q. hd p < hd q) (butlast acc @ [last acc])"
    using inv acc unfolding seqInv_def by simp
  have before: "\<forall>p\<in>set (butlast acc). hd p < i0"
    using srt last i0 by (auto simp: sorted_wrt_append)
  have 1: "\<forall>ps\<in>set (butlast acc @ [last acc @ [n]]).
             \<exists>i j. ps = [i..<j] \<and> runUpto l s (Suc n) i j"
  proof
    fix ps assume "ps \<in> set (butlast acc @ [last acc @ [n]])"
    then consider "ps \<in> set (butlast acc)" | "ps = [i0..<Suc n]" using newlast by auto
    then show "\<exists>i j. ps = [i..<j] \<and> runUpto l s (Suc n) i j"
    proof cases
      case 1
      then have "ps \<in> set acc" by (rule in_set_butlastD)
      with inv obtain i j where e: "ps = [i..<j]" and r: "runUpto l s n i j"
        unfolding seqInv_def by blast
      from r have ij: "i < j" "j \<le> n" by (simp_all add: runUpto_def)
      from before 1 have "hd ps < i0" by blast
      with e ij have "i < i0" by simp
      have "j \<noteq> n"
      proof
        assume "j = n"
        with r r0 runUpto_end_unique[of l s n i n i0] have "i = i0" by simp
        with \<open>i < i0\<close> show False by simp
      qed
      with ij have "j < n" by simp
      with r R have "runUpto l s (Suc n) i j" by blast
      with e show ?thesis by blast
    next
      case 2
      moreover have "runUpto l s (Suc n) i0 (Suc n)" using R r0 by blast
      ultimately show ?thesis by blast
    qed
  qed
  have 2: "\<forall>i j. runUpto l s (Suc n) i j \<longrightarrow> [i..<j] \<in> set (butlast acc @ [last acc @ [n]])"
  proof (intro allI impI)
    fix i j assume "runUpto l s (Suc n) i j"
    with R consider "runUpto l s n i j" "j < n" | "j = Suc n" "runUpto l s n i n" by blast
    then show "[i..<j] \<in> set (butlast acc @ [last acc @ [n]])"
    proof cases
      case 1
      with inv have m: "[i..<j] \<in> set acc" unfolding seqInv_def by blast
      from 1 have "i < j" by (simp add: runUpto_def)
      have "[i..<j] \<noteq> last acc"
      proof
        assume "[i..<j] = last acc"
        with last have "[i..<j] = [i0..<n]" by simp
        from upt_eq_upt[OF \<open>i < j\<close> this] have "j = n" by simp
        with 1 show False by simp
      qed
      with m acc have "[i..<j] \<in> set (butlast acc)"
        by (metis Un_iff empty_iff empty_set insert_iff list.simps(15) set_append)
      then show ?thesis by simp
    next
      case 2
      with r0 runUpto_end_unique[of l s n i n i0] have "i = i0" by simp
      with 2 newlast show ?thesis by simp
    qed
  qed
  have 3: "sorted_wrt (\<lambda>p q. hd p < hd q) (butlast acc @ [last acc @ [n]])"
    using srt last i0 by (simp add: sorted_wrt_append)
  have 4: "last (butlast acc @ [last acc @ [n]]) = [i0..<Suc n]" using newlast by simp
  show ?thesis unfolding seqInv_def using 1 2 3 4 by blast
qed

lemma seqInv_step:
  assumes n: "n < length l" and inv: "seqInv l s n acc"
  shows "seqInv l s (Suc n) (sequencesStep l s acc (l ! n, n))"
proof (cases "l ! n = s")
  case False
  then show ?thesis using seqInv_skip[OF inv] by (simp add: sequencesStep_def)
next
  case True
  show ?thesis
  proof (cases "acc = [] \<or> n = 0 \<or> l ! (n - 1) \<noteq> s")
    case c: True
    then have "sequencesStep l s acc (l ! n, n) = acc @ [[n]]"
      using True n by (auto simp: sequencesStep_def elementBefore_def)
    then show ?thesis using seqInv_new[OF inv True c] by simp
  next
    case c: False
    then have "sequencesStep l s acc (l ! n, n) = butlast acc @ [last acc @ [n]]"
      using True n by (auto simp: sequencesStep_def elementBefore_def)
    then show ?thesis using seqInv_extend[OF inv True] c by simp
  qed
qed

lemma seqInv_prefix:
  "n \<le> length l \<Longrightarrow>
   seqInv l s n (foldl (sequencesStep l s) [] (zip (take n l) [0..<n]))"
proof (induction n)
  case 0
  show ?case by (simp add: seqInv_def runUpto_def)
next
  case (Suc n)
  then have n: "n < length l" by simp
  then have "zip (take (Suc n) l) [0..<Suc n] = zip (take n l) [0..<n] @ [(l ! n, n)]"
    by (simp add: take_Suc_conv_app_nth)
  then show ?case using seqInv_step[OF n] Suc by simp
qed

lemma seqInv_buildSymbolSequences:
  "seqInv l s (length l) (buildSymbolSequences l s)"
  using seqInv_prefix[of "length l" l s] by (simp add: buildSymbolSequences_def)

lemma buildSymbolSequences_sound:
  "ps \<in> set (buildSymbolSequences l s) \<Longrightarrow> \<exists>i j. ps = [i..<j] \<and> maximalRun l s i j"
  using seqInv_buildSymbolSequences[of l s]
  unfolding seqInv_def maximalRun_runUpto by blast

lemma buildSymbolSequences_complete:
  "maximalRun l s i j \<Longrightarrow> [i..<j] \<in> set (buildSymbolSequences l s)"
  using seqInv_buildSymbolSequences[of l s]
  unfolding seqInv_def maximalRun_runUpto by blast

lemma buildSymbolSequences_sorted:
  "sorted_wrt (\<lambda>p q. hd p < hd q) (buildSymbolSequences l s)"
  using seqInv_buildSymbolSequences[of l s] unfolding seqInv_def by blast

section \<open>The first long sequence is the leftmost qualifying run\<close>

lemma qualifyingRun_bounds:
  "qualifyingRun l s i j \<Longrightarrow> i < j \<and> i < length l \<and> j \<le> length l"
  by (auto simp: qualifyingRun_def maximalRun_def)

lemma positions_Some_leftmost:
  assumes "getPaylinePositionsBySymbol line s = Some ps"
  shows "leftmostQualifyingRun (replaceWildToSymbolInLine line s) s ps"
proof -
  define l where "l = replaceWildToSymbolInLine line s"
  define xs where "xs = buildSymbolSequences l s"
  from assms have f: "find (\<lambda>q. minSequenceLength config \<le> length q) xs = Some ps"
    by (simp add: getPaylinePositionsBySymbol_def findPaylinePositions_def xs_def l_def)
  then obtain k where k: "k < length xs" "minSequenceLength config \<le> length (xs ! k)"
      "ps = xs ! k" and before: "\<forall>m<k. \<not> minSequenceLength config \<le> length (xs ! m)"
    unfolding find_Some_iff by blast
  from k have "ps \<in> set xs" by simp
  then obtain i j where ij: "ps = [i..<j]" "maximalRun l s i j"
    using buildSymbolSequences_sound[of ps l s] unfolding xs_def by blast
  from k ij have "minSequenceLength config \<le> length [i..<j]" by simp
  with ij have q: "qualifyingRun l s i j" by (simp add: qualifyingRun_def)
  have left: "\<not> qualifyingRun l s i' j'" if "i' < i" for i' j'
  proof
    assume q': "qualifyingRun l s i' j'"
    then have "[i'..<j'] \<in> set xs"
      using buildSymbolSequences_complete[of l s i' j'] unfolding xs_def qualifyingRun_def
      by blast
    then obtain m where m: "m < length xs" "xs ! m = [i'..<j']"
      unfolding in_set_conv_nth by blast
    from q' m have "minSequenceLength config \<le> length (xs ! m)"
      by (simp add: qualifyingRun_def)
    with before have "\<not> m < k" by blast
    moreover have "m \<noteq> k"
    proof
      assume "m = k"
      with m k ij have "[i'..<j'] = [i..<j]" by simp
      moreover from q' have "i' < j'" by (simp add: qualifyingRun_bounds)
      ultimately have "i' = i" using upt_eq_upt by blast
      with that show False by simp
    qed
    ultimately have "k < m" by simp
    have "hd (xs ! k) < hd (xs ! m)"
      using sorted_wrt_nth_less[OF buildSymbolSequences_sorted[of l s], of k m] \<open>k < m\<close> m(1)
      unfolding xs_def by simp
    moreover have "xs ! k = [i..<j]" using k(3) ij(1) by simp
    moreover have "i < j" "i' < j'"
      using qualifyingRun_bounds[OF q] qualifyingRun_bounds[OF q'] by simp_all
    ultimately have "i < i'" using m(2) by simp
    with that show False by simp
  qed
  from q ij left qualifyingRun_bounds[OF q] show ?thesis
    unfolding leftmostQualifyingRun_def l_def[symmetric] by auto
qed

lemma positions_None_no_run:
  assumes "getPaylinePositionsBySymbol line s = None"
  shows "\<not> hasQualifyingRun (replaceWildToSymbolInLine line s) s"
proof
  define l where "l = replaceWildToSymbolInLine line s"
  assume "hasQualifyingRun (replaceWildToSymbolInLine line s) s"
  then obtain i j where q: "qualifyingRun l s i j"
    unfolding hasQualifyingRun_def l_def by blast
  then have "[i..<j] \<in> set (buildSymbolSequences l s)"
    using buildSymbolSequences_complete[of l s i j] unfolding qualifyingRun_def by blast
  moreover from q have "minSequenceLength config \<le> length [i..<j]"
    by (simp add: qualifyingRun_def)
  ultimately show False using assms
    unfolding getPaylinePositionsBySymbol_def findPaylinePositions_def find_None_iff l_def
    by blast
qed

lemma leftmost_has:
  "leftmostQualifyingRun l s ps \<Longrightarrow> hasQualifyingRun l s"
  unfolding leftmostQualifyingRun_def hasQualifyingRun_def by blast

lemma positions_defined_iff:
  "(getPaylinePositionsBySymbol line s \<noteq> None) =
     hasQualifyingRun (replaceWildToSymbolInLine line s) s"
  using positions_None_no_run[of line s] positions_Some_leftmost[of line s] leftmost_has
  by (cases "getPaylinePositionsBySymbol line s") auto

lemma isElegibleSymbol_iff:
  "isElegibleSymbol s = (s \<in> set (payingSymbols config) \<and> s \<noteq> wildSymbol config)"
  by (auto simp: isElegibleSymbol_def)

lemma call_Inr_valid: "call line = Inr res \<Longrightarrow> \<forall>x\<in>set line. x \<in> set allSymbols"
  using call_invalid[of line] by auto

section \<open>Properties of \<open>call\<close>\<close>

lemma length_replaceWild:
  "length (replaceWildToSymbolInLine line s) = length line"
  by (simp add: replaceWildToSymbolInLine_def)

lemma nth_replaceWild:
  "k < length line \<Longrightarrow> replaceWildToSymbolInLine line s ! k = s \<Longrightarrow>
   line ! k = s \<or> line ! k = wildSymbol config"
  by (simp add: replaceWildToSymbolInLine_def split: if_splits)

lemma replaceWildToSymbolInLine_substitutes:
  "replaceWildToSymbolInLine line s = wildSubstitutedLine line s"
proof (rule nth_equalityI)
  show "length (replaceWildToSymbolInLine line s) = length (wildSubstitutedLine line s)"
    by (simp add: replaceWildToSymbolInLine_def wildSubstitutedLine_def)
next
  fix k assume "k < length (replaceWildToSymbolInLine line s)"
  then have "k < length line" by (simp add: replaceWildToSymbolInLine_def)
  then show "replaceWildToSymbolInLine line s ! k = wildSubstitutedLine line s ! k"
    by (simp add: replaceWildToSymbolInLine_def wildSubstitutedLine_def)
qed

lemma allSymbols_upto: "allSymbols = [0..15]"
  by (simp add: allSymbols_def config_def upto_rec1)

lemma set_allSymbols: "set allSymbols = {0..15}"
  unfolding allSymbols_upto by (rule set_upto)

text \<open>
  Claim C1. For every payline, \<open>call\<close> fails with \<open>InvalidSymbolError\<close> if and only if some
  symbol of the payline lies outside the union of the wild, the paying and the non-paying
  symbols, which is the set of codes \<open>0, ..., 15\<close>. The failure is the whole result: \<open>call\<close>
  returns a combination list exactly when every symbol is in that set, so no partial
  list comes with the error.
\<close>

theorem invalid_symbol_error_iff:
  "(call line = Inl InvalidSymbolError) =
     (\<exists>x\<in>set line. x \<notin> {wildSymbol config} \<union> set (payingSymbols config)
                                  \<union> set (nonPayingSymbols config))
   \<and> ((\<exists>res. call line = Inr res) =
     (\<forall>x\<in>set line. x \<in> {wildSymbol config} \<union> set (payingSymbols config)
                                  \<union> set (nonPayingSymbols config)))
   \<and> {wildSymbol config} \<union> set (payingSymbols config) \<union> set (nonPayingSymbols config)
       = {0..15}"
proof -
  have u: "{wildSymbol config} \<union> set (payingSymbols config) \<union> set (nonPayingSymbols config)
             = set allSymbols"
    by (simp add: allSymbols_def)
  show ?thesis
  proof (cases "\<forall>x\<in>set line. x \<in> set allSymbols")
    case True
    then show ?thesis using call_valid[OF True] unfolding u
      by (auto simp: set_allSymbols)
  next
    case False
    then show ?thesis using call_invalid[of line] unfolding u
      by (auto simp: set_allSymbols)
  qed
qed

text \<open>
  The payline \<open>[1, 1, 99]\<close> fails, the payline \<open>[1, 0, 1, 5, 6]\<close> does not.
\<close>

theorem invalid_symbol_error_iff_witness:
  "(\<exists>x\<in>set [1, 1, 99]. x \<notin> {wildSymbol config} \<union> set (payingSymbols config)
                                  \<union> set (nonPayingSymbols config))
   \<and> call [1, 1, 99] = Inl InvalidSymbolError
   \<and> set [1, 0, 1, 5, 6] \<subseteq> {wildSymbol config} \<union> set (payingSymbols config)
                                  \<union> set (nonPayingSymbols config)
   \<and> (\<exists>res. call [1, 0, 1, 5, 6] = Inr res)"
  using invalid_symbol_error_iff[of "[1, 1, 99]"] invalid_symbol_error_iff[of "[1, 0, 1, 5, 6]"]
  by (simp add: config_def)

text \<open>
  Claim C2. For every payline composed entirely of the wild symbol, that is, whose set of
  distinct symbols is exactly the wild symbol, \<open>call\<close> returns exactly one combination:
  the wild symbol with the positions \<open>0, ..., n - 1\<close>, where \<open>n\<close> is the length of the
  payline. (The empty payline holds no symbol; its result is the empty list.)
\<close>

theorem all_wild_single_combination:
  assumes "set line = {wildSymbol config}"
  shows "call line = Inr [(wildSymbol config, [0..<length line])]"
proof -
  from assms have "\<forall>x\<in>set line. x \<in> set allSymbols" by (simp add: allSymbols_def)
  from call_valid[OF this] assms show ?thesis
    by (simp add: buildAllWildWinningCombinationsResult_def)
qed

theorem all_wild_single_combination_witness:
  "set [0, 0, 0, 0] = {wildSymbol config}
   \<and> call [0, 0, 0, 0] = Inr [(wildSymbol config, [0, 1, 2, 3])]
   \<and> wildSymbol config = 0"
  using all_wild_single_combination[of "[0, 0, 0, 0]"]
  by (simp add: config_def upt_rec[of 0] upt_rec[of "Suc _"])

text \<open>
  Claim C3. For every valid payline that is not made of wilds only, \<open>call\<close> returns a list
  \<open>res\<close> whose symbols are pairwise distinct and appear in the order of their first
  appearance in the payline; they are exactly the symbols of the payline that are paying
  and not wild and whose wild-substituted line (every wild replaced by that symbol, the
  other positions unchanged: \<open>wildSubstitutedLine\<close>, which is not the code's function)
  has a maximal run of at least three positions; and every entry carries the positions
  of the leftmost such run of its symbol. A symbol without a qualifying run has no
  entry.
\<close>

theorem winning_combinations_characterisation:
  assumes inUniverse: "\<forall>x\<in>set line. x \<in> {wildSymbol config} \<union> set (payingSymbols config)
                                      \<union> set (nonPayingSymbols config)"
    and notAllWild: "set line \<noteq> {wildSymbol config}"
  shows "\<exists>res. call line = Inr res
     \<and> distinct (map fst res)
     \<and> set (map fst res) =
         {symbol \<in> set line. symbol \<in> set (payingSymbols config) \<and> symbol \<noteq> wildSymbol config
            \<and> hasQualifyingRun (wildSubstitutedLine line symbol) symbol}
     \<and> sorted_wrt (\<lambda>a b. firstIndex line a < firstIndex line b) (map fst res)
     \<and> (\<forall>(symbol, ps)\<in>set res.
           leftmostQualifyingRun (wildSubstitutedLine line symbol) symbol ps)"
proof -
  from inUniverse have valid: "\<forall>x\<in>set line. x \<in> set allSymbols"
    by (simp add: allSymbols_def)
  define res where "res = foldl (callStep line) [] (newSet line)"
  have c: "call line = Inr res"
    using call_valid[OF valid] notAllWild by (simp add: res_def)
  have f: "map fst res =
      filter (\<lambda>s. isElegibleSymbol s \<and> getPaylinePositionsBySymbol line s \<noteq> None)
        (newSet line)"
    unfolding res_def by (simp add: fst_foldl_callStep)
  have d: "distinct (map fst res)" unfolding f using distinct_newSet by simp
  have pq: "(isElegibleSymbol s \<and> getPaylinePositionsBySymbol line s \<noteq> None) =
      (s \<in> set (payingSymbols config) \<and> s \<noteq> wildSymbol config
        \<and> hasQualifyingRun (replaceWildToSymbolInLine line s) s)" for s
    unfolding isElegibleSymbol_iff positions_defined_iff by blast
  have s: "set (map fst res) =
         {symbol \<in> set line. symbol \<in> set (payingSymbols config) \<and> symbol \<noteq> wildSymbol config
            \<and> hasQualifyingRun (replaceWildToSymbolInLine line symbol) symbol}"
    unfolding f set_filter set_newSet pq by blast
  have o: "sorted_wrt (\<lambda>a b. firstIndex line a < firstIndex line b) (map fst res)"
    unfolding f using sorted_newSet[of line] by (rule sorted_wrt_filter)
  have l: "\<forall>(symbol, ps)\<in>set res.
           leftmostQualifyingRun (replaceWildToSymbolInLine line symbol) symbol ps"
    unfolding res_def set_foldl_callStep using positions_Some_leftmost by auto
  from c d s o l show ?thesis
    unfolding replaceWildToSymbolInLine_substitutes[symmetric] by blast
qed

text \<open>
  Claim C4. For every valid payline that is not made of wilds only, the symbol of every
  returned combination is a paying symbol of the payline; it is neither the wild symbol
  nor a non-paying symbol.
\<close>

theorem only_paying_symbols_win:
  assumes "set line \<noteq> {wildSymbol config}" and "call line = Inr res"
    and "(symbol, ps) \<in> set res"
  shows "symbol \<in> set (payingSymbols config) \<and> symbol \<noteq> wildSymbol config
         \<and> symbol \<notin> set (nonPayingSymbols config) \<and> symbol \<in> set line"
proof -
  from assms(2) have valid: "\<forall>x\<in>set line. x \<in> set allSymbols" by (rule call_Inr_valid)
  from call_valid[OF valid] assms have "(symbol, ps) \<in> set (foldl (callStep line) [] (newSet line))"
    by auto
  then have "isElegibleSymbol symbol" "symbol \<in> set line"
    unfolding set_foldl_callStep by (auto simp: set_newSet)
  then show ?thesis by (auto simp: isElegibleSymbol_def config_def)
qed

text \<open>
  Claim C5. The empty payline gives the empty result. A valid, non-empty payline shorter
  than \<open>minSequenceLength\<close> gives the empty result too, unless it is made of wilds only:
  then the result is the all-wild combination, whatever the length.
\<close>

theorem short_paylines:
  "call [] = Inr []
   \<and> ((\<forall>x\<in>set line. x \<in> set allSymbols) \<and> line \<noteq> []
        \<and> length line < minSequenceLength config \<longrightarrow>
      call line = Inr (if \<forall>x\<in>set line. x = wildSymbol config
                       then [(wildSymbol config, [0..<length line])] else []))"
proof (intro conjI impI)
  show "call [] = Inr []" by (simp add: call_def newSet_def validateSymbols_def)
next
  assume a: "(\<forall>x\<in>set line. x \<in> set allSymbols) \<and> line \<noteq> []
        \<and> length line < minSequenceLength config"
  then have valid: "\<forall>x\<in>set line. x \<in> set allSymbols" by simp
  from a have w: "(\<forall>x\<in>set line. x = wildSymbol config) = (set line = {wildSymbol config})"
    by (cases line) auto
  have none: "getPaylinePositionsBySymbol line s = None" for s
  proof (cases "getPaylinePositionsBySymbol line s")
    case (Some ps)
    from positions_Some_leftmost[OF this] obtain i j where
      "qualifyingRun (replaceWildToSymbolInLine line s) s i j"
      unfolding leftmostQualifyingRun_def by blast
    then have "minSequenceLength config \<le> length line"
      by (auto simp: qualifyingRun_def maximalRun_def length_replaceWild)
    with a show ?thesis by simp
  qed simp
  have "set (foldl (callStep line) [] (newSet line)) = {}"
    unfolding set_foldl_callStep by (simp add: none)
  then have "foldl (callStep line) [] (newSet line) = []" by simp
  with call_valid[OF valid] w
  show "call line = Inr (if \<forall>x\<in>set line. x = wildSymbol config
                       then [(wildSymbol config, [0..<length line])] else [])"
    by (simp add: buildAllWildWinningCombinationsResult_def)
qed

text \<open>
  Claim C6. In every combination \<open>call\<close> returns, the positions are a non-empty list of
  consecutive increasing indices \<open>[i, i + 1, ...]\<close>, every one of them inside the payline,
  and the payline holds the symbol of the combination or the wild symbol at each of
  them.
\<close>

theorem positions_well_formed:
  assumes "call line = Inr res" and "(symbol, ps) \<in> set res"
  shows "ps \<noteq> [] \<and> ps = [hd ps..<hd ps + length ps]
         \<and> (\<forall>p\<in>set ps. p < length line \<and> (line ! p = symbol \<or> line ! p = wildSymbol config))"
proof -
  from assms(1) have valid: "\<forall>x\<in>set line. x \<in> set allSymbols" by (rule call_Inr_valid)
  have "\<exists>i j. ps = [i..<j] \<and> i < j \<and> j \<le> length line
          \<and> (\<forall>k\<in>{i..<j}. line ! k = symbol \<or> line ! k = wildSymbol config)"
  proof (cases "set line = {wildSymbol config}")
    case True
    then have ne: "0 < length line" by (cases line) simp_all
    from call_valid[OF valid] True assms(1)
    have "res = [(wildSymbol config, [0..<length line])]"
      by (simp add: buildAllWildWinningCombinationsResult_def)
    with assms(2) have ps: "ps = [0..<length line]" by simp
    have "line ! k = wildSymbol config" if "k < length line" for k
      using nth_mem[OF that] True by simp
    then have "\<forall>k\<in>{0..<length line}. line ! k = symbol \<or> line ! k = wildSymbol config"
      by simp
    with ps ne show ?thesis by blast
  next
    case False
    with call_valid[OF valid] assms(1)
    have "res = foldl (callStep line) [] (newSet line)" by simp
    with assms(2) have "(symbol, ps) \<in> set (foldl (callStep line) [] (newSet line))"
      by simp
    then have "getPaylinePositionsBySymbol line symbol = Some ps"
      by (simp add: set_foldl_callStep)
    from positions_Some_leftmost[OF this] obtain i j where
      ps: "ps = [i..<j]" and q: "qualifyingRun (replaceWildToSymbolInLine line symbol) symbol i j"
      unfolding leftmostQualifyingRun_def by blast
    from q have mr: "maximalRun (replaceWildToSymbolInLine line symbol) symbol i j"
      by (simp add: qualifyingRun_def)
    from mr have ij: "i < j" "j \<le> length line"
      by (simp_all add: maximalRun_def length_replaceWild)
    from mr have eq: "\<forall>k\<in>{i..<j}. replaceWildToSymbolInLine line symbol ! k = symbol"
      by (simp add: maximalRun_def)
    have "line ! k = symbol \<or> line ! k = wildSymbol config" if "k \<in> {i..<j}" for k
    proof -
      from that ij have "k < length line" by simp
      moreover from eq that have "replaceWildToSymbolInLine line symbol ! k = symbol" by blast
      ultimately show ?thesis by (rule nth_replaceWild)
    qed
    with ps ij show ?thesis by blast
  qed
  then obtain i j where ps: "ps = [i..<j]" and ij: "i < j" "j \<le> length line"
    and el: "\<forall>k\<in>{i..<j}. line ! k = symbol \<or> line ! k = wildSymbol config" by blast
  from ps ij have 1: "ps \<noteq> []" by simp
  from ps ij have "hd ps = i" "hd ps + length ps = j" by simp_all
  with ps have 2: "ps = [hd ps..<hd ps + length ps]" by simp
  have 3: "\<forall>p\<in>set ps. p < length line \<and> (line ! p = symbol \<or> line ! p = wildSymbol config)"
  proof
    fix p assume "p \<in> set ps"
    with ps have p: "p \<in> {i..<j}" by simp
    with ij have "p < length line" by simp
    with el p show "p < length line \<and> (line ! p = symbol \<or> line ! p = wildSymbol config)"
      by blast
  qed
  from 1 2 3 show ?thesis by blast
qed

subsection \<open>The properties on example paylines\<close>

lemma call_example_bridged: "call [1, 0, 1, 5, 6] = Inr [(1, [0, 1, 2])]"
  by code_simp

lemma call_example_two_symbols:
  "call [1, 0, 0, 2, 2] = Inr [(1, [0, 1, 2]), (2, [1, 2, 3, 4])]"
  by code_simp

lemma call_example_short: "call [1, 1] = Inr []" "call [0, 0] = Inr [(0, [0, 1])]"
  by code_simp+

text \<open>
  In \<open>[1, 0, 0, 2, 2]\<close> the two wilds extend the run of \<open>1\<close> to the right and the run of
  \<open>2\<close> to the left.
\<close>

theorem winning_combinations_characterisation_witness:
  "set [1, 0, 0, 2, 2] \<subseteq> {wildSymbol config} \<union> set (payingSymbols config)
                              \<union> set (nonPayingSymbols config)
   \<and> set [1, 0, 0, 2, 2] \<noteq> {wildSymbol config}
   \<and> call [1, 0, 0, 2, 2] = Inr [(1, [0, 1, 2]), (2, [1, 2, 3, 4])]
   \<and> wildSubstitutedLine [1, 0, 0, 2, 2] 1 = [1, 1, 1, 2, 2]
   \<and> leftmostQualifyingRun (wildSubstitutedLine [1, 0, 0, 2, 2] 1) 1 [0, 1, 2]
   \<and> wildSubstitutedLine [1, 0, 0, 2, 2] 2 = [1, 2, 2, 2, 2]
   \<and> leftmostQualifyingRun (wildSubstitutedLine [1, 0, 0, 2, 2] 2) 2 [1, 2, 3, 4]"
proof -
  have e: "wildSubstitutedLine [1, 0, 0, 2, 2] 1 = [1, 1, 1, 2, 2]"
    "wildSubstitutedLine [1, 0, 0, 2, 2] 2 = [1, 2, 2, 2, 2]"
    by (simp_all add: wildSubstitutedLine_def config_def upt_rec[of 0] upt_rec[of "Suc _"])
  have v: "\<forall>x\<in>set [1, 0, 0, 2, 2]. x \<in> {wildSymbol config} \<union> set (payingSymbols config)
                                      \<union> set (nonPayingSymbols config)"
    by (simp add: config_def)
  have w: "set [1, 0, 0, 2, 2] \<noteq> {wildSymbol config}"
    by (auto simp: config_def)
  from winning_combinations_characterisation[OF v w] obtain res where
    c: "call [1, 0, 0, 2, 2] = Inr res" and
    l: "\<forall>(symbol, ps)\<in>set res.
          leftmostQualifyingRun (wildSubstitutedLine [1, 0, 0, 2, 2] symbol) symbol ps"
    by blast
  from c have r: "res = [(1, [0, 1, 2]), (2, [1, 2, 3, 4])]"
    by (simp add: call_example_two_symbols)
  from l r have "leftmostQualifyingRun (wildSubstitutedLine [1, 0, 0, 2, 2] 1) 1 [0, 1, 2]"
    "leftmostQualifyingRun (wildSubstitutedLine [1, 0, 0, 2, 2] 2) 2 [1, 2, 3, 4]"
    by simp_all
  moreover from v have "set [1, 0, 0, 2, 2] \<subseteq> {wildSymbol config}
      \<union> set (payingSymbols config) \<union> set (nonPayingSymbols config)" by blast
  ultimately show ?thesis using w c r e by simp
qed

theorem only_paying_symbols_win_witness:
  "set [1, 0, 1, 5, 6] \<noteq> {wildSymbol config}
   \<and> call [1, 0, 1, 5, 6] = Inr [(1, [0, 1, 2])]
   \<and> (1, [0, 1, 2]) \<in> set [(1::int, [0, 1, 2::nat])]
   \<and> (1 \<in> set (payingSymbols config) \<and> 1 \<noteq> wildSymbol config
        \<and> 1 \<notin> set (nonPayingSymbols config) \<and> (1::int) \<in> set [1, 0, 1, 5, 6])"
proof -
  have w: "set [1, 0, 1, 5, 6] \<noteq> {wildSymbol config}" by (auto simp: config_def)
  have m: "(1, [0, 1, 2]) \<in> set [(1::int, [0, 1, 2::nat])]" by simp
  from only_paying_symbols_win[OF w call_example_bridged m] w m call_example_bridged
  show ?thesis by blast
qed

theorem short_paylines_witness:
  "set [0, 0] \<subseteq> set allSymbols \<and> [0, 0] \<noteq> ([]::int list)
   \<and> length [0, 0::int] < minSequenceLength config
   \<and> call [0, 0] = Inr [(0, [0, 1])]
   \<and> set [1, 1] \<subseteq> set allSymbols \<and> [1, 1] \<noteq> ([]::int list)
   \<and> length [1, 1::int] < minSequenceLength config
   \<and> call [1, 1] = Inr []"
  using short_paylines[of "[0, 0]"] short_paylines[of "[1, 1]"]
  by (simp add: allSymbols_def config_def upt_rec[of 0] upt_rec[of "Suc _"])

theorem positions_well_formed_witness:
  "call [1, 0, 1, 5, 6] = Inr [(1, [0, 1, 2])]
   \<and> (1, [0, 1, 2]) \<in> set [(1::int, [0, 1, 2::nat])]
   \<and> [0, 1, 2] \<noteq> ([]::nat list)
   \<and> list_all (\<lambda>p. p < length [1, 0, 1, 5, 6::int]
         \<and> ([1, 0, 1, 5, 6] ! p = (1::int) \<or> [1, 0, 1, 5, 6] ! p = wildSymbol config))
        [0, 1, 2]"
proof -
  have m: "(1, [0, 1, 2]) \<in> set [(1::int, [0, 1, 2::nat])]" by simp
  from positions_well_formed[OF call_example_bridged m] m call_example_bridged
  show ?thesis unfolding list_all_iff by blast
qed

section \<open>The cadence as a recurrence\<close>

lemma count_split:
  "length (filter (\<lambda>symbol. 0 \<le> column symbol \<and> column symbol \<le> int (Suc k)) symbols) =
   length (filter (\<lambda>symbol. 0 \<le> column symbol \<and> column symbol \<le> int k) symbols) +
   length (filter (\<lambda>symbol. column symbol = int (Suc k)) symbols)"
  by (induction symbols) auto

lemma count_zero:
  "length (filter (\<lambda>symbol. column symbol = int 0) symbols) = cumulativeCount symbols 0"
  unfolding cumulativeCount_def by (induction symbols) auto

lemma cumulativeCount_Suc:
  "cumulativeCount symbols (Suc k) =
     cumulativeCount symbols k
       + length (filter (\<lambda>symbol. column symbol = int (Suc k)) symbols)"
  unfolding cumulativeCount_def by (rule count_split)

lemma countColumn_foldl:
  "foldl (\<lambda>st index. countColumn symbols index st) (0, []) [0..<n] =
     ((if n = 0 then 0 else cumulativeCount symbols (n - 1)),
      map (cumulativeCount symbols) [0..<n])"
proof (induction n)
  case 0
  show ?case by simp
next
  case (Suc n)
  show ?case
  proof (cases n)
    case 0
    then show ?thesis using count_zero[of symbols] by (simp add: countColumn_def Let_def)
  next
    case (Suc m)
    then show ?thesis using Suc.IH cumulativeCount_Suc[of symbols m]
      by (simp add: countColumn_def Let_def)
  qed
qed

lemma calculateCumulative_eq:
  "calculateCumulativeSymbolCountsPerColumn symbols =
     map (cumulativeCount symbols) [0..<columnSize anticipatorConfig]"
  by (simp add: calculateCumulativeSymbolCountsPerColumn_def forEachColumnIndex_def
      countColumn_foldl)

lemma cadence_first:
  "calculateCadence None c = 0"
  by (simp add: calculateCadence_def)

lemma cadence_next:
  "calculateCadence (Some p) (orNull (Some c)) =
     p + (if minToAnticipate anticipatorConfig \<le> c \<and> c < maxToAnticipate anticipatorConfig
          then anticipateCadence anticipatorConfig else defaultCadence anticipatorConfig)"
  by (simp add: calculateCadence_def orNull_def anticipatorConfig_def)

lemma cadenceColumn_foldl:
  assumes "n \<le> m"
  shows "foldl (\<lambda>st index. cadenceColumn (map (cumulativeCount symbols) [0..<m]) index st)
           (None, []) [0..<n] =
         ((if n = 0 then None else Some (cadenceAt symbols (n - 1))),
          map (cadenceAt symbols) [0..<n])"
  using assms
proof (induction n)
  case 0
  show ?case by simp
next
  case (Suc n)
  then have IH: "foldl (\<lambda>st index. cadenceColumn (map (cumulativeCount symbols) [0..<m]) index st)
           (None, []) [0..<n] =
         ((if n = 0 then None else Some (cadenceAt symbols (n - 1))),
          map (cadenceAt symbols) [0..<n])" by simp
  show ?case
  proof (cases n)
    case 0
    then show ?thesis
      by (simp add: cadenceColumn_def Let_def arrayAt_def orNull_def cadence_first)
  next
    case (Suc k)
    with Suc.prems have k: "k < m" by simp
    then have "arrayAt (map (cumulativeCount symbols) [0..<m]) (int n - 1)
                 = Some (cumulativeCount symbols k)"
      using Suc by (simp add: arrayAt_def)
    then show ?thesis using IH Suc
      by (simp add: cadenceColumn_def Let_def cadence_next cadenceIncrement_def)
  qed
qed

lemma calculateSlotCadence_eq:
  "calculateSlotCadence symbols =
     map (cadenceAt symbols) [0..<columnSize anticipatorConfig]"
  by (simp add: calculateSlotCadence_def forEachColumnIndex_def calculateCumulative_eq
      cadenceColumn_foldl)

lemma cadenceAt_mono: "cadenceAt symbols i \<le> cadenceAt symbols (Suc i)"
  by (simp add: cadenceIncrement_def anticipatorConfig_def)

lemma cadenceAt_mono_le: "i \<le> j \<Longrightarrow> cadenceAt symbols i \<le> cadenceAt symbols j"
proof (induction j)
  case 0
  then show ?case by simp
next
  case (Suc j)
  show ?case
  proof (cases "i = Suc j")
    case True
    then show ?thesis by simp
  next
    case False
    with Suc have "cadenceAt symbols i \<le> cadenceAt symbols j" by simp
    also have "\<dots> \<le> cadenceAt symbols (Suc j)" by (rule cadenceAt_mono)
    finally show ?thesis .
  qed
qed

lemma cumulativeCount_in_range:
  "k < columnSize anticipatorConfig \<Longrightarrow>
   cumulativeCount
     (filter (\<lambda>symbol. 0 \<le> column symbol
                \<and> column symbol < int (columnSize anticipatorConfig)) symbols) k
     = cumulativeCount symbols k"
  unfolding cumulativeCount_def filter_filter
  by (rule arg_cong[where f = length], rule filter_cong) auto

lemma cadenceAt_in_range:
  "i < columnSize anticipatorConfig \<Longrightarrow>
   cadenceAt
     (filter (\<lambda>symbol. 0 \<le> column symbol
                \<and> column symbol < int (columnSize anticipatorConfig)) symbols) i
     = cadenceAt symbols i"
proof (induction i)
  case 0
  show ?case by simp
next
  case (Suc i)
  then show ?case by (simp add: cadenceIncrement_def cumulativeCount_in_range)
qed

text \<open>
  Claim C7. The cadence of column \<open>0\<close> is \<open>0\<close>. For every later column \<open>i\<close> the cadence is
  that of column \<open>i - 1\<close> plus \<open>anticipateCadence\<close> when the number of special symbols in
  the columns \<open>0, ..., i - 1\<close> is at least \<open>minToAnticipate\<close> and less than
  \<open>maxToAnticipate\<close>, and plus \<open>defaultCadence\<close> otherwise; the constants are
  \<open>2\<close>, \<open>3\<close>, \<open>2\<close> and \<open>0.25\<close>, for five columns.
\<close>

theorem cadence_recurrence:
  "calculateSlotCadence symbols ! 0 = 0
   \<and> (\<forall>i. 0 < i \<and> i < columnSize anticipatorConfig \<longrightarrow>
        calculateSlotCadence symbols ! i =
          calculateSlotCadence symbols ! (i - 1)
          + (if minToAnticipate anticipatorConfig \<le> cumulativeCount symbols (i - 1)
                \<and> cumulativeCount symbols (i - 1) < maxToAnticipate anticipatorConfig
             then anticipateCadence anticipatorConfig
             else defaultCadence anticipatorConfig))
   \<and> columnSize anticipatorConfig = 5
   \<and> minToAnticipate anticipatorConfig = 2 \<and> maxToAnticipate anticipatorConfig = 3
   \<and> anticipateCadence anticipatorConfig = 2 \<and> defaultCadence anticipatorConfig = 1 / 4"
proof (intro conjI allI impI)
  show "calculateSlotCadence symbols ! 0 = 0"
    by (simp add: calculateSlotCadence_eq anticipatorConfig_def upt_rec[of 0])
next
  fix i assume i: "0 < i \<and> i < columnSize anticipatorConfig"
  then obtain k where k: "i = Suc k" by (cases i) auto
  with i have "calculateSlotCadence symbols ! i = cadenceAt symbols (Suc k)"
    "calculateSlotCadence symbols ! (i - 1) = cadenceAt symbols k"
    by (simp_all add: calculateSlotCadence_eq)
  with k show "calculateSlotCadence symbols ! i =
          calculateSlotCadence symbols ! (i - 1)
          + (if minToAnticipate anticipatorConfig \<le> cumulativeCount symbols (i - 1)
                \<and> cumulativeCount symbols (i - 1) < maxToAnticipate anticipatorConfig
             then anticipateCadence anticipatorConfig
             else defaultCadence anticipatorConfig)"
    by (simp add: cadenceIncrement_def)
qed (simp_all add: anticipatorConfig_def)

lemma exampleSymbols_cadence:
  "calculateSlotCadence exampleSymbols = [0, 2, 9 / 4, 5 / 2, 11 / 4]"
  by (simp add: calculateSlotCadence_eq anticipatorConfig_def exampleSymbols_def
      cadenceIncrement_def cumulativeCount_def upt_rec[of 0] upt_rec[of "Suc _"])

theorem cadence_recurrence_witness:
  "(0::nat) < 1 \<and> 1 < columnSize anticipatorConfig
   \<and> cumulativeCount exampleSymbols 0 = 2
   \<and> calculateSlotCadence exampleSymbols ! 1 = calculateSlotCadence exampleSymbols ! 0 + 2
   \<and> calculateSlotCadence exampleSymbols ! 1 = 2"
  using cadence_recurrence[of exampleSymbols]
  by (simp add: exampleSymbols_cadence anticipatorConfig_def cumulativeCount_def
      exampleSymbols_def)

text \<open>
  Claim C8. The cadence array has one entry for each of the five columns and never
  decreases from one column to the next.
\<close>

theorem cadence_length_and_monotone:
  "length (calculateSlotCadence symbols) = columnSize anticipatorConfig
   \<and> columnSize anticipatorConfig = 5
   \<and> sorted (calculateSlotCadence symbols)"
proof -
  have "sorted (map (cadenceAt symbols) [0..<columnSize anticipatorConfig])"
    unfolding sorted_map
    by (rule sorted_wrt_mono_rel[OF _ sorted_upt]) (simp add: cadenceAt_mono_le)
  then show ?thesis
    by (simp add: calculateSlotCadence_eq anticipatorConfig_def)
qed

theorem cadence_length_and_monotone_witness:
  "length (calculateSlotCadence exampleSymbols) = 5
   \<and> sorted (calculateSlotCadence exampleSymbols)
   \<and> calculateSlotCadence exampleSymbols = [0, 2, 9 / 4, 5 / 2, 11 / 4]"
  using cadence_length_and_monotone[of exampleSymbols]
  by (simp add: exampleSymbols_cadence)

text \<open>
  Claim C9. \<open>calculateSlotCadence\<close> has no failing branch: it is a total function that
  returns a five-element array for every list of coordinates. Coordinates whose column
  is not one of \<open>0, ..., columnSize - 1\<close> do not change the result: it is the result for
  the list without them.
\<close>

theorem out_of_range_columns_ignored:
  "calculateSlotCadence symbols =
     calculateSlotCadence
       (filter (\<lambda>symbol. 0 \<le> column symbol
                  \<and> column symbol < int (columnSize anticipatorConfig)) symbols)
   \<and> length (calculateSlotCadence symbols) = columnSize anticipatorConfig"
  by (simp add: calculateSlotCadence_eq cadenceAt_in_range)

theorem out_of_range_columns_ignored_witness:
  "calculateSlotCadence strayColumns = calculateSlotCadence [\<lparr>column = 1, row = 0\<rparr>]
   \<and> length (calculateSlotCadence strayColumns) = 5"
proof -
  note t = out_of_range_columns_ignored[of strayColumns]
  have f: "filter (\<lambda>symbol. 0 \<le> column symbol
                  \<and> column symbol < int (columnSize anticipatorConfig)) strayColumns
          = [\<lparr>column = 1, row = 0\<rparr>]"
    by (simp add: strayColumns_def anticipatorConfig_def)
  have c: "columnSize anticipatorConfig = 5" by (simp add: anticipatorConfig_def)
  have 1: "calculateSlotCadence strayColumns = calculateSlotCadence [\<lparr>column = 1, row = 0\<rparr>]"
    using conjunct1[OF t] unfolding f .
  have 2: "length (calculateSlotCadence strayColumns) = 5"
    using conjunct2[OF t] unfolding c .
  from 1 2 show ?thesis by blast
qed

section \<open>The result object of \<open>handleCadences\<close>\<close>

lemma gameRounds_cadences:
  "calculateSlotCadence (specialSymbols (roundOne gameRounds)) = [0, 1 / 4, 9 / 4, 17 / 4, 9 / 2]"
  "calculateSlotCadence (specialSymbols (roundTwo gameRounds)) = [0, 2, 4, 6, 8]"
  "calculateSlotCadence (specialSymbols (roundThree gameRounds)) = [0, 1 / 4, 1 / 2, 3 / 4, 1]"
  by (simp_all add: calculateSlotCadence_eq anticipatorConfig_def gameRounds_def
      cadenceIncrement_def cumulativeCount_def upt_rec[of 0] upt_rec[of "Suc _"])

lemma no_symbols_cadence:
  "calculateSlotCadence [] = [0, 1 / 4, 1 / 2, 3 / 4, 1]"
  by (simp add: calculateSlotCadence_eq anticipatorConfig_def
      cadenceIncrement_def cumulativeCount_def upt_rec[of 0] upt_rec[of "Suc _"])

lemma handleCadences_result:
  "fst (handleCadences rounds st) = slotMachineCadences"
  by (simp add: handleCadences_def newArray_def Let_def split_def)

lemma handleCadences_objects:
  "roundOne (objects (snd (handleCadences rounds st)) slotMachineCadences) = nextRef st"
  "roundTwo (objects (snd (handleCadences rounds st)) slotMachineCadences) = Suc (nextRef st)"
  "roundThree (objects (snd (handleCadences rounds st)) slotMachineCadences)
     = Suc (Suc (nextRef st))"
  "obj \<noteq> slotMachineCadences \<Longrightarrow>
     objects (snd (handleCadences rounds st)) obj = objects st obj"
  by (simp_all add: handleCadences_def newArray_def setRoundOne_def setRoundTwo_def
      setRoundThree_def Let_def split_def)

lemma handleCadences_arrays:
  "arrays (snd (handleCadences rounds st)) =
     (arrays st)
       (nextRef st := calculateSlotCadence (specialSymbols (roundOne rounds)),
        Suc (nextRef st) := calculateSlotCadence (specialSymbols (roundTwo rounds)),
        Suc (Suc (nextRef st)) := calculateSlotCadence (specialSymbols (roundThree rounds)))"
  by (simp add: handleCadences_def newArray_def setRoundOne_def setRoundTwo_def
      setRoundThree_def Let_def split_def)

lemma handleCadences_nextRef:
  "nextRef (snd (handleCadences rounds st)) = nextRef st + 3"
  by (simp add: handleCadences_def newArray_def setRoundOne_def setRoundTwo_def
      setRoundThree_def Let_def split_def)

text \<open>
  Claim C10, as stated, fails. Two successive calls return the same reference, and what
  the first caller reads through it changes with the second call: round two reads
  \<open>[0, 2, 4, 6, 8]\<close> after the first call and \<open>[0, 0.25, 0.5, 0.75, 1]\<close> after the second.
\<close>

theorem second_call_overwrites_first_result:
  "fst secondCall = fst firstCall
   \<and> roundTwo (readCadences (snd firstCall) (fst firstCall)) = [0, 2, 4, 6, 8]
   \<and> roundTwo (readCadences (snd secondCall) (fst firstCall)) = [0, 1 / 4, 1 / 2, 3 / 4, 1]
   \<and> readCadences (snd secondCall) (fst firstCall)
       \<noteq> readCadences (snd firstCall) (fst firstCall)"
proof -
  have r: "fst secondCall = fst firstCall"
    by (simp add: firstCall_def secondCall_def handleCadences_result)
  have a: "roundTwo (readCadences (snd firstCall) (fst firstCall)) = [0, 2, 4, 6, 8]"
    by (simp add: firstCall_def readCadences_def handleCadences_result
        handleCadences_objects handleCadences_arrays gameRounds_cadences)
  have b: "roundTwo (readCadences (snd secondCall) (fst firstCall))
             = [0, 1 / 4, 1 / 2, 3 / 4, 1]"
    by (simp add: firstCall_def secondCall_def readCadences_def handleCadences_result
        handleCadences_objects handleCadences_arrays noSpecialSymbols_def no_symbols_cadence)
  from a b have "roundTwo (readCadences (snd secondCall) (fst firstCall))
       \<noteq> roundTwo (readCadences (snd firstCall) (fst firstCall))" by simp
  then have "readCadences (snd secondCall) (fst firstCall)
       \<noteq> readCadences (snd firstCall) (fst firstCall)" by auto
  with r a b show ?thesis by blast
qed

text \<open>
  Claim C10, amended. Every call of \<open>handleCadences\<close> returns the one module-level object
  \<open>slotMachineCadences\<close>, whose three fields it has overwritten: read through that
  reference, the rounds are the cadences of this call's rounds. The three arrays are new
  (their addresses were unused before the call, and differ from one another), no array
  that existed before the call is changed, and no other object is touched.
\<close>

theorem handleCadences_reuses_container:
  "fst (handleCadences rounds st) = slotMachineCadences
   \<and> readCadences (snd (handleCadences rounds st)) slotMachineCadences =
       \<lparr> roundOne = calculateSlotCadence (specialSymbols (roundOne rounds)),
         roundTwo = calculateSlotCadence (specialSymbols (roundTwo rounds)),
         roundThree = calculateSlotCadence (specialSymbols (roundThree rounds)) \<rparr>
   \<and> nextRef st \<le> roundOne (objects (snd (handleCadences rounds st)) slotMachineCadences)
   \<and> nextRef st \<le> roundTwo (objects (snd (handleCadences rounds st)) slotMachineCadences)
   \<and> nextRef st \<le> roundThree (objects (snd (handleCadences rounds st)) slotMachineCadences)
   \<and> distinct [roundOne (objects (snd (handleCadences rounds st)) slotMachineCadences),
               roundTwo (objects (snd (handleCadences rounds st)) slotMachineCadences),
               roundThree (objects (snd (handleCadences rounds st)) slotMachineCadences)]
   \<and> (\<forall>a. a < nextRef st \<longrightarrow> arrays (snd (handleCadences rounds st)) a = arrays st a)
   \<and> (\<forall>obj. obj \<noteq> slotMachineCadences \<longrightarrow>
         objects (snd (handleCadences rounds st)) obj = objects st obj)"
  by (simp add: handleCadences_result handleCadences_objects handleCadences_arrays
      readCadences_def)

theorem handleCadences_reuses_container_witness:
  "(0::nat) < nextRef initialStore
   \<and> arrays (snd (handleCadences gameRounds initialStore)) 0 = arrays initialStore 0
   \<and> (1::nat) \<noteq> slotMachineCadences
   \<and> objects (snd (handleCadences gameRounds initialStore)) 1 = objects initialStore 1
   \<and> fst (handleCadences gameRounds initialStore) = slotMachineCadences
   \<and> roundTwo (readCadences (snd (handleCadences gameRounds initialStore)) slotMachineCadences)
       = [0, 2, 4, 6, 8]"
  using handleCadences_reuses_container[of gameRounds initialStore]
  by (simp add: initialStore_def slotMachineCadences_def gameRounds_cadences)

end
